theory Spec2Isabelle
  imports Main "HOL-Library.Multiset"
begin

section \<open>Python building blocks used by the batching code\<close>

text \<open>
  The two scripts \<^verbatim>\<open>model_inferencing/sorting.py\<close> and
  \<^verbatim>\<open>model_deployment/quantization.py\<close> share their bucketing code and differ in
  how a length group is cut into batches. A tokenized sequence is a list of token ids;
  the tokenizer, the tensor conversion and the model call are external collaborators,
  so the functions below start from \<^verbatim>\<open>tokenized_inputs\<close> and record the batch of
  sequences handed to \<^verbatim>\<open>batch_generate\<close> at every \<^verbatim>\<open>yield\<close>.
\<close>

datatype py_error = ValueError | KeyError

type_synonym seq = "int list"
type_synonym batch = "seq list"
type_synonym groups = "(nat \<times> seq list) list"

text \<open>
  What a generator function does when it is consumed to the end: the items it yielded,
  in order, and the exception that ended it, if any.
\<close>

type_synonym 'a gen_result = "'a list \<times> py_error option"

text \<open>
  \<^verbatim>\<open>range(start, stop, step)\<close>: a zero step raises \<^verbatim>\<open>ValueError\<close>; otherwise the
  number of elements is the one CPython computes.
\<close>

definition py_range :: "int \<Rightarrow> int \<Rightarrow> int \<Rightarrow> py_error + int list" where
  "py_range start stop step =
     (if step = 0 then Inl ValueError
      else if 0 < step then
        Inr (map (\<lambda>i. start + int i * step)
               [0 ..< (if start < stop then nat ((stop - start - 1) div step + 1) else 0)])
      else
        Inr (map (\<lambda>i. start + int i * step)
               [0 ..< (if stop < start then nat ((start - stop - 1) div (- step) + 1) else 0)]))"

text \<open>
  \<^verbatim>\<open>xs[lo:hi]\<close>: a negative bound counts from the end, and both bounds are clamped to
  the list.
\<close>

definition slice_index :: "nat \<Rightarrow> int \<Rightarrow> nat" where
  "slice_index n i = (if i < 0 then nat (max (int n + i) 0) else nat (min i (int n)))"

definition py_slice :: "'a list \<Rightarrow> int \<Rightarrow> int \<Rightarrow> 'a list" where
  "py_slice xs lo hi =
     (let l = slice_index (length xs) lo; h = slice_index (length xs) hi
      in take (h - l) (drop l xs))"

text \<open>
  \<^verbatim>\<open>max(iterable)\<close> raises \<^verbatim>\<open>ValueError\<close> on an empty iterable.
\<close>

fun py_max :: "nat list \<Rightarrow> py_error + nat" where
  "py_max [] = Inl ValueError"
| "py_max (k # ks) = Inr (fold max ks k)"

section \<open>sorting.py: chunker\<close>

text \<open>
  \<^verbatim>\<open>(seq[pos : pos + max_size] for pos in range(0, len(seq), max_size))\<close>. The range
  is built when \<^verbatim>\<open>chunker\<close> is called, so a zero \<^verbatim>\<open>max_size\<close> raises there.
\<close>

definition chunker :: "'a list \<Rightarrow> int \<Rightarrow> py_error + 'a list list" where
  "chunker seq max_size =
     (case py_range 0 (int (length seq)) max_size of
        Inl e \<Rightarrow> Inl e
      | Inr ps \<Rightarrow> Inr (map (\<lambda>pos. py_slice seq pos (pos + max_size)) ps))"

section \<open>The length bucketing shared by both scripts\<close>

text \<open>
  \<^verbatim>\<open>sorted_batches\<close> is a Python dict, which iterates in insertion order: an
  association list, a new key going to the end.
\<close>

definition dict_contains :: "nat \<Rightarrow> groups \<Rightarrow> bool" where
  "dict_contains k d = (k \<in> set (map fst d))"

fun dict_set :: "nat \<Rightarrow> seq list \<Rightarrow> groups \<Rightarrow> groups" where
  "dict_set k v [] = [(k, v)]"
| "dict_set k v ((k', v') # d) = (if k' = k then (k, v) # d else (k', v') # dict_set k v d)"

text \<open>\<^verbatim>\<open>d[k].append(x)\<close>: a missing key raises \<^verbatim>\<open>KeyError\<close>.\<close>

fun dict_append :: "nat \<Rightarrow> seq \<Rightarrow> groups \<Rightarrow> py_error + groups" where
  "dict_append k x [] = Inl KeyError"
| "dict_append k x ((k', v) # d) =
     (if k' = k then Inr ((k', v @ [x]) # d)
      else (case dict_append k x d of
              Inl e \<Rightarrow> Inl e
            | Inr d' \<Rightarrow> Inr ((k', v) # d')))"

text \<open>The loop over \<^verbatim>\<open>sorted_tokens\<close> that fills \<^verbatim>\<open>sorted_batches\<close>.\<close>

fun group_loop :: "seq list \<Rightarrow> groups \<Rightarrow> py_error + groups" where
  "group_loop [] d = Inr d"
| "group_loop (sorted_token # rest) d =
     (if length sorted_token = 0 then group_loop rest d
      else
        (let len = length sorted_token;
             d1 = (if \<not> dict_contains len d then dict_set len [] d else d)
         in case dict_append len sorted_token d1 of
              Inl e \<Rightarrow> Inl e
            | Inr d2 \<Rightarrow> group_loop rest d2))"

text \<open>
  \<^verbatim>\<open>sorted(tokenized_inputs, key=len)\<close> is a stable sort, as \<^const>\<open>sort_key\<close> is.
\<close>

definition length_groups :: "seq list \<Rightarrow> py_error + groups" where
  "length_groups tokenized_inputs = group_loop (sort_key length tokenized_inputs) []"

section \<open>sorting.py: predict\_sorted\_batches (a fixed number of items per batch)\<close>

fun chunk_groups :: "groups \<Rightarrow> int \<Rightarrow> batch gen_result" where
  "chunk_groups [] max_batch_size = ([], None)"
| "chunk_groups ((len, sorted_batch) # rest) max_batch_size =
     (case chunker sorted_batch max_batch_size of
        Inl e \<Rightarrow> ([], Some e)
      | Inr chunks \<Rightarrow>
          (case chunk_groups rest max_batch_size of
             (later, r) \<Rightarrow> (chunks @ later, r)))"

definition predict_sorted_batches :: "seq list \<Rightarrow> int \<Rightarrow> batch gen_result" where
  "predict_sorted_batches tokenized_inputs max_batch_size =
     (case length_groups tokenized_inputs of
        Inl e \<Rightarrow> ([], Some e)
      | Inr sorted_batches \<Rightarrow> chunk_groups sorted_batches max_batch_size)"

section \<open>quantization.py: predict\_sorted\_batches (a token budget per batch)\<close>

text \<open>
  The inner loop over one length group, with its accumulator \<^verbatim>\<open>current_batch\<close> and
  \<^verbatim>\<open>current_batch_size\<close>; at the end of the group a non-empty accumulator is yielded.
\<close>

fun pack_loop :: "nat \<Rightarrow> seq list \<Rightarrow> batch \<Rightarrow> nat \<Rightarrow> batch list" where
  "pack_loop max_size [] current_batch current_batch_size =
     (if current_batch \<noteq> [] then [current_batch] else [])"
| "pack_loop max_size (b # rest) current_batch current_batch_size =
     (if current_batch_size + length b > max_size
      then current_batch # pack_loop max_size rest ([] @ [b]) (0 + length b)
      else pack_loop max_size rest (current_batch @ [b]) (current_batch_size + length b))"

fun pack_groups :: "groups \<Rightarrow> nat \<Rightarrow> batch list" where
  "pack_groups [] max_size = []"
| "pack_groups ((len, sorted_batch) # rest) max_size =
     pack_loop max_size sorted_batch [] 0 @ pack_groups rest max_size"

definition token_budget :: "seq list \<Rightarrow> py_error + nat" where
  "token_budget tokenized_inputs =
     (case length_groups tokenized_inputs of
        Inl e \<Rightarrow> Inl e
      | Inr sorted_batches \<Rightarrow> py_max (map fst sorted_batches))"

definition predict_sorted_batches_budget :: "seq list \<Rightarrow> batch gen_result" where
  "predict_sorted_batches_budget tokenized_inputs =
     (case length_groups tokenized_inputs of
        Inl e \<Rightarrow> ([], Some e)
      | Inr sorted_batches \<Rightarrow>
          (case py_max (map fst sorted_batches) of
             Inl e \<Rightarrow> ([], Some e)
           | Inr max_size \<Rightarrow> (pack_groups sorted_batches max_size, None)))"

definition token_count :: "batch \<Rightarrow> nat" where
  "token_count b = sum_list (map length b)"

section \<open>Notions used in the statements\<close>

definition chunk_count :: "nat \<Rightarrow> nat \<Rightarrow> nat" where
  "chunk_count n m = (if 0 < n then (n - 1) div m + 1 else 0)"

text \<open>
  A well-formed dict of length groups: no group is empty, no key is zero, and every
  sequence of a group has the length the group is filed under.
\<close>

definition groups_ok :: "groups \<Rightarrow> bool" where
  "groups_ok d = list_all (\<lambda>(k, v). v \<noteq> [] \<and> 0 < k \<and> list_all (\<lambda>t. length t = k) v) d"

text \<open>The smallest sequence length of a batch, and a batch of one single length.\<close>

definition min_seq_length :: "batch \<Rightarrow> nat" where
  "min_seq_length b = Min (set (map length b))"

definition same_length :: "batch \<Rightarrow> bool" where
  "same_length b = list_all (\<lambda>s. list_all (\<lambda>t. length s = length t) b) b"

section \<open>track\_time\<close>

text \<open>
  \<^verbatim>\<open>track_time\<close> is a generator under \<^verbatim>\<open>@contextmanager\<close>, with no
  \<^verbatim>\<open>try\<close> around its \<^verbatim>\<open>yield\<close>. Entering the \<^verbatim>\<open>with\<close> block runs it up to the
  \<^verbatim>\<open>yield\<close> (the first clock reading). When the block is left without an exception
  (it ran to its end, or left early by \<^verbatim>\<open>break\<close> or \<^verbatim>\<open>return\<close>), the generator is
  resumed and runs the second reading and the \<^verbatim>\<open>print\<close>. When the block raises, the
  exception is thrown into the generator at the \<^verbatim>\<open>yield\<close>, nothing there catches it,
  the two statements after the \<^verbatim>\<open>yield\<close> are skipped and the exception goes on to the
  caller.

  The world is the clock and what has been printed; the wrapped work changes it and
  leaves on one of three paths. A printed line is kept as the duration it shows, the
  formatting to two decimals left out.
\<close>

datatype 'e exit_path = Completed | Early_exit | Raised 'e

datatype 't printed = Execution_time 't

record 't world =
  now :: 't
  stdout :: "'t printed list"

type_synonym ('t, 'e) work = "'t world \<Rightarrow> 'e exit_path \<times> 't world"

definition track_time :: "('t::minus, 'e) work \<Rightarrow> ('t, 'e) work" where
  "track_time body w =
     (let start = now w in
      case body w of
        (Raised e, w1) \<Rightarrow> (Raised e, w1)
      | (path, w1) \<Rightarrow>
          (let finish = now w1
           in (path, w1\<lparr>stdout := stdout w1 @ [Execution_time (finish - start)]\<rparr>)))"

definition finishing_work :: "(int, string) work" where
  "finishing_work w = (Completed, w\<lparr>now := now w + 5\<rparr>)"

definition raising_work :: "(int, string) work" where
  "raising_work w = (Raised ''inference failed'', w\<lparr>now := now w + 5\<rparr>)"

section \<open>Slicing and chunking\<close>

lemma slice_index_nat: "slice_index n (int p) = min p n"
  by (simp add: slice_index_def min_def)

lemma py_slice_nat:
  "py_slice xs (int p) (int p + int m) = take m (drop p xs)"
proof -
  have "py_slice xs (int p) (int (p + m)) = take (min (p + m) (length xs) - min p (length xs)) (drop (min p (length xs)) xs)"
    unfolding py_slice_def Let_def slice_index_nat ..
  also have "\<dots> = take m (drop p xs)"
    by (cases "p \<le> length xs") (simp_all add: min_def)
  finally show ?thesis by simp
qed

lemma py_range_chunks:
  assumes "0 < m"
  shows "py_range 0 (int n) (int m) = Inr (map (\<lambda>i. int (i * m)) [0 ..< chunk_count n m])"
proof (cases n)
  case 0
  with assms show ?thesis by (simp add: py_range_def chunk_count_def)
next
  case (Suc j)
  have "nat (int j div int m + 1) = j div m + 1"
    by (simp add: nat_add_distrib flip: zdiv_int)
  with Suc assms show ?thesis by (simp add: py_range_def chunk_count_def)
qed

lemma chunker_pos:
  assumes "0 < m"
  shows "chunker xs (int m) =
           Inr (map (\<lambda>i. take m (drop (i * m) xs)) [0 ..< chunk_count (length xs) m])"
  by (simp add: chunker_def py_range_chunks [OF assms] py_slice_nat comp_def del: of_nat_mult)

lemma concat_chunks_take:
  "concat (map (\<lambda>i. take m (drop (i * m) xs)) [0 ..< k]) = take (k * m) xs"
proof (induction k)
  case 0
  then show ?case by simp
next
  case (Suc k)
  have "take (k * m) xs @ take m (drop (k * m) xs) = take (k * m + m) xs"
    by (simp add: take_add)
  with Suc show ?case by (simp add: add.commute)
qed

lemma chunk_count_covers: "0 < m \<Longrightarrow> n \<le> chunk_count n m * m"
proof (cases n)
  case 0
  then show ?thesis by simp
next
  case (Suc j)
  assume m: "0 < m"
  have "j < (j div m + 1) * m"
    using m by (metis Suc_eq_plus1 dividend_less_div_times mult.commute mult_Suc add.commute)
  with Suc show ?thesis by (simp add: chunk_count_def)
qed

lemma chunk_count_full:
  assumes "0 < m" "Suc i < chunk_count n m"
  shows "i * m + m \<le> n"
proof -
  from assms obtain j where n: "n = Suc j"
    by (cases n) (auto simp: chunk_count_def)
  with assms have "Suc i \<le> j div m" by (simp add: chunk_count_def)
  then have "Suc i * m \<le> (j div m) * m" by (rule mult_le_mono1)
  also have "\<dots> \<le> j" by simp
  finally show ?thesis using n by simp
qed

lemma chunker_concat:
  assumes "0 < m" "chunker xs (int m) = Inr chunks"
  shows "concat chunks = xs"
proof -
  from assms have "concat chunks = take (chunk_count (length xs) m * m) xs"
    by (auto simp: chunker_pos concat_chunks_take)
  with chunk_count_covers [OF assms(1), of "length xs"] show ?thesis by simp
qed

lemma chunker_lengths:
  assumes "0 < m" "chunker xs (int m) = Inr chunks" "c \<in> set chunks"
  shows "c \<noteq> [] \<and> length c \<le> m"
proof -
  from assms obtain i where i: "i < chunk_count (length xs) m" and c: "c = take m (drop (i * m) xs)"
    by (auto simp: chunker_pos)
  have "i * m < length xs"
  proof (cases "length xs")
    case 0
    with i show ?thesis by (simp add: chunk_count_def)
  next
    case (Suc j)
    with i have "i \<le> j div m" by (simp add: chunk_count_def)
    then have "i * m \<le> (j div m) * m" by (rule mult_le_mono1)
    also have "\<dots> \<le> j" by simp
    finally show ?thesis using Suc by simp
  qed
  with c assms(1) show ?thesis by simp
qed

section \<open>The length groups\<close>

lemma dict_set_absent: "k \<notin> set (map fst d) \<Longrightarrow> dict_set k v d = d @ [(k, v)]"
  by (induction d) auto

lemma dict_append_snoc:
  "k \<notin> set (map fst d) \<Longrightarrow> dict_append k x (d @ [(k, v)]) = Inr (d @ [(k, v @ [x])])"
  by (induction d) auto

lemma dict_append_present:
  "k \<in> set (map fst d) \<Longrightarrow>
     \<exists>d1 v d2. d = d1 @ (k, v) # d2 \<and> dict_append k x d = Inr (d1 @ (k, v @ [x]) # d2)"
proof (induction d)
  case Nil
  then show ?case by simp
next
  case (Cons p d)
  obtain k' v' where p: "p = (k', v')" by (cases p)
  show ?case
  proof (cases "k' = k")
    case True
    then have "p # d = [] @ (k, v') # d \<and> dict_append k x (p # d) = Inr ([] @ (k, v' @ [x]) # d)"
      using p by simp
    then show ?thesis by blast
  next
    case False
    with Cons.prems p have "k \<in> set (map fst d)" by simp
    from Cons.IH [OF this] obtain d1 v d2
      where "d = d1 @ (k, v) # d2" "dict_append k x d = Inr (d1 @ (k, v @ [x]) # d2)" by blast
    then have "p # d = (p # d1) @ (k, v) # d2 \<and> dict_append k x (p # d) = Inr ((p # d1) @ (k, v @ [x]) # d2)"
      using p False by simp
    then show ?thesis by blast
  qed
qed

text \<open>One round of the loop on a non-empty sequence either opens a new group at the end
  or extends the group of its length in place.\<close>

lemma group_loop_step:
  assumes "t \<noteq> []"
  shows "(length t \<notin> set (map fst d) \<and> group_loop (t # ts) d = group_loop ts (d @ [(length t, [t])])) \<or>
         (\<exists>d1 v d2. d = d1 @ (length t, v) # d2 \<and>
            group_loop (t # ts) d = group_loop ts (d1 @ (length t, v @ [t]) # d2))"
proof (cases "length t \<in> set (map fst d)")
  case True
  from dict_append_present [OF True, of t] obtain d1 v d2
    where "d = d1 @ (length t, v) # d2" "dict_append (length t) t d = Inr (d1 @ (length t, v @ [t]) # d2)"
    by blast
  moreover from this True assms have "group_loop (t # ts) d = group_loop ts (d1 @ (length t, v @ [t]) # d2)"
    by (simp add: dict_contains_def)
  ultimately show ?thesis by blast
next
  case False
  with assms have "group_loop (t # ts) d = group_loop ts (d @ [(length t, [t])])"
    using dict_append_snoc [OF False, of t "[]"] by (simp add: dict_contains_def dict_set_absent)
  with False show ?thesis by blast
qed

lemma group_loop_total: "\<exists>d'. group_loop ts d = Inr d'"
proof (induction ts arbitrary: d)
  case Nil
  then show ?case by simp
next
  case (Cons t ts)
  show ?case
  proof (cases "t = []")
    case True
    with Cons.IH [of d] show ?thesis by simp
  next
    case False
    from group_loop_step [OF False, of d ts] Cons.IH show ?thesis by metis
  qed
qed

lemma group_loop_mset:
  "group_loop ts d = Inr d' \<Longrightarrow>
     mset (concat (map snd d')) = mset (concat (map snd d)) + mset (filter (\<lambda>t. t \<noteq> []) ts)"
proof (induction ts arbitrary: d)
  case Nil
  then show ?case by simp
next
  case (Cons t ts)
  show ?case
  proof (cases "t = []")
    case True
    with Cons show ?thesis by simp
  next
    case False
    from group_loop_step [OF False, of d ts] show ?thesis
    proof (elim disjE conjE exE)
      assume "group_loop (t # ts) d = group_loop ts (d @ [(length t, [t])])"
      with Cons.prems have "group_loop ts (d @ [(length t, [t])]) = Inr d'" by simp
      from Cons.IH [OF this] False show ?thesis by simp
    next
      fix d1 v d2
      assume d: "d = d1 @ (length t, v) # d2"
        and "group_loop (t # ts) d = group_loop ts (d1 @ (length t, v @ [t]) # d2)"
      with Cons.prems have "group_loop ts (d1 @ (length t, v @ [t]) # d2) = Inr d'" by simp
      from Cons.IH [OF this] False d show ?thesis by simp
    qed
  qed
qed

lemma group_loop_ok:
  "group_loop ts d = Inr d' \<Longrightarrow> groups_ok d \<Longrightarrow> groups_ok d'"
proof (induction ts arbitrary: d)
  case Nil
  then show ?case by simp
next
  case (Cons t ts)
  show ?case
  proof (cases "t = []")
    case True
    with Cons show ?thesis by simp
  next
    case False
    from group_loop_step [OF False, of d ts] show ?thesis
    proof (elim disjE conjE exE)
      assume "group_loop (t # ts) d = group_loop ts (d @ [(length t, [t])])"
      with Cons.prems have "group_loop ts (d @ [(length t, [t])]) = Inr d'" by simp
      moreover have "groups_ok (d @ [(length t, [t])])"
        using Cons.prems(2) False by (simp add: groups_ok_def)
      ultimately show ?thesis by (rule Cons.IH)
    next
      fix d1 v d2
      assume d: "d = d1 @ (length t, v) # d2"
        and "group_loop (t # ts) d = group_loop ts (d1 @ (length t, v @ [t]) # d2)"
      with Cons.prems have "group_loop ts (d1 @ (length t, v @ [t]) # d2) = Inr d'" by simp
      moreover have "groups_ok (d1 @ (length t, v @ [t]) # d2)"
        using Cons.prems(2) d by (simp add: groups_ok_def)
      ultimately show ?thesis by (rule Cons.IH)
    qed
  qed
qed

lemma group_loop_keys:
  "group_loop ts d = Inr d' \<Longrightarrow> sorted (map length ts) \<Longrightarrow> sorted_wrt (<) (map fst d) \<Longrightarrow>
     (\<forall>k \<in> set (map fst d). \<forall>t \<in> set ts. t \<noteq> [] \<longrightarrow> k \<le> length t) \<Longrightarrow>
     sorted_wrt (<) (map fst d')"
proof (induction ts arbitrary: d)
  case Nil
  then show ?case by simp
next
  case (Cons t ts)
  from Cons.prems(2) have srt: "sorted (map length ts)" and le: "\<forall>u \<in> set ts. length t \<le> length u"
    by simp_all
  show ?case
  proof (cases "t = []")
    case True
    with Cons.prems have "group_loop ts d = Inr d'" by simp
    from Cons.IH [OF this srt Cons.prems(3)] Cons.prems(4) show ?thesis by simp
  next
    case False
    from group_loop_step [OF False, of d ts] show ?thesis
    proof (elim disjE conjE exE)
      assume new: "length t \<notin> set (map fst d)"
        and "group_loop (t # ts) d = group_loop ts (d @ [(length t, [t])])"
      with Cons.prems have 1: "group_loop ts (d @ [(length t, [t])]) = Inr d'" by simp
      have "\<forall>k \<in> set (map fst d). k < length t"
        using Cons.prems(4) False new by (metis list.set_intros(1) le_neq_implies_less)
      then have 2: "sorted_wrt (<) (map fst (d @ [(length t, [t])]))"
        using Cons.prems(3) by (simp add: sorted_wrt_append)
      have 3: "\<forall>k \<in> set (map fst (d @ [(length t, [t])])). \<forall>u \<in> set ts. u \<noteq> [] \<longrightarrow> k \<le> length u"
        using Cons.prems(4) le by auto
      from Cons.IH [OF 1 srt 2 3] show ?thesis .
    next
      fix d1 v d2
      assume d: "d = d1 @ (length t, v) # d2"
        and "group_loop (t # ts) d = group_loop ts (d1 @ (length t, v @ [t]) # d2)"
      with Cons.prems have 1: "group_loop ts (d1 @ (length t, v @ [t]) # d2) = Inr d'" by simp
      have keys: "map fst (d1 @ (length t, v @ [t]) # d2) = map fst d" using d by simp
      have 3: "\<forall>k \<in> set (map fst (d1 @ (length t, v @ [t]) # d2)). \<forall>u \<in> set ts. u \<noteq> [] \<longrightarrow> k \<le> length u"
        unfolding keys using Cons.prems(4) by simp
      from Cons.IH [OF 1 srt _ 3] Cons.prems(3) keys show ?thesis by simp
    qed
  qed
qed

lemma length_groups_props:
  "\<exists>d. length_groups toks = Inr d \<and> groups_ok d \<and> sorted_wrt (<) (map fst d) \<and>
        mset (concat (map snd d)) = mset (filter (\<lambda>t. t \<noteq> []) toks)"
proof -
  obtain d where d: "group_loop (sort_key length toks) [] = Inr d"
    using group_loop_total by blast
  have ok: "groups_ok d"
    using group_loop_ok [OF d] by (simp add: groups_ok_def)
  have keys: "sorted_wrt (<) (map fst d)"
    using group_loop_keys [OF d] by simp
  have "mset (concat (map snd d)) = mset (filter (\<lambda>t. t \<noteq> []) (sort_key length toks))"
    using group_loop_mset [OF d] by simp
  also have "\<dots> = mset (filter (\<lambda>t. t \<noteq> []) toks)"
    by (simp add: mset_filter)
  finally show ?thesis using d ok keys by (simp add: length_groups_def)
qed

lemma groups_okD:
  "groups_ok d \<Longrightarrow> (k, v) \<in> set d \<Longrightarrow> v \<noteq> [] \<and> 0 < k \<and> (\<forall>t \<in> set v. length t = k)"
  by (auto simp: groups_ok_def list_all_iff)

subsection \<open>Fixed-count chunking of the groups\<close>

lemma chunk_groups_pos:
  assumes "0 < m"
  shows "\<exists>parts. chunk_groups d (int m) = (concat parts, None) \<and> map concat parts = map snd d \<and>
           list_all2 (\<lambda>p g. chunker (snd g) (int m) = Inr p) parts d"
proof (induction d)
  case Nil
  then show ?case by simp
next
  case (Cons g d)
  obtain k v where g: "g = (k, v)" by (cases g)
  from Cons obtain parts where parts: "chunk_groups d (int m) = (concat parts, None)"
    "map concat parts = map snd d" "list_all2 (\<lambda>p g. chunker (snd g) (int m) = Inr p) parts d" by blast
  obtain chunks where chunks: "chunker v (int m) = Inr chunks"
    using chunker_pos [OF assms] by blast
  have "concat chunks = v" using chunker_concat [OF assms chunks] .
  with parts chunks g have "chunk_groups (g # d) (int m) = (concat (chunks # parts), None) \<and>
      map concat (chunks # parts) = map snd (g # d) \<and>
      list_all2 (\<lambda>p g. chunker (snd g) (int m) = Inr p) (chunks # parts) (g # d)"
    by simp
  then show ?case by blast
qed

lemma chunk_groups_zero:
  "chunk_groups d 0 = ([], if d = [] then None else Some ValueError)"
  by (cases d) (auto simp: chunker_def py_range_def)

lemma chunk_groups_neg: "m < 0 \<Longrightarrow> chunk_groups d m = ([], None)"
  by (induction d) (auto simp: chunker_def py_range_def)

subsection \<open>Token-budget packing of the groups\<close>

lemma concat_pack_loop: "concat (pack_loop B g cur n) = cur @ g"
  by (induction g arbitrary: cur n) auto

lemma pack_loop_bound:
  "n = token_count cur \<Longrightarrow> token_count cur \<le> B \<or> length cur = 1 \<Longrightarrow>
     b \<in> set (pack_loop B g cur n) \<Longrightarrow> token_count b \<le> B \<or> length b = 1"
proof (induction g arbitrary: cur n)
  case Nil
  then show ?case by (auto split: if_splits)
next
  case (Cons x g)
  show ?case
  proof (cases "n + length x > B")
    case True
    with Cons.prems(3) have "b = cur \<or> b \<in> set (pack_loop B g [x] (length x))" by simp
    then show ?thesis
    proof
      assume "b = cur" with Cons.prems(2) show ?thesis by simp
    next
      assume "b \<in> set (pack_loop B g [x] (length x))"
      then show ?thesis by (rule Cons.IH [rotated 2]) (simp_all add: token_count_def)
    qed
  next
    case False
    with Cons.prems(3) have mem: "b \<in> set (pack_loop B g (cur @ [x]) (n + length x))" by simp
    have 1: "n + length x = token_count (cur @ [x])"
      using Cons.prems(1) by (simp add: token_count_def)
    have 2: "token_count (cur @ [x]) \<le> B \<or> length (cur @ [x]) = 1"
      using False 1 by simp
    from Cons.IH [OF 1 2 mem] show ?thesis .
  qed
qed

lemma pack_groups_bound:
  "b \<in> set (pack_groups d B) \<Longrightarrow> token_count b \<le> B \<or> length b = 1"
proof (induction d)
  case Nil
  then show ?case by simp
next
  case (Cons g d)
  obtain k v where g: "g = (k, v)" by (cases g)
  from Cons.prems g have "b \<in> set (pack_loop B v [] 0) \<or> b \<in> set (pack_groups d B)" by simp
  then show ?case
  proof
    assume "b \<in> set (pack_loop B v [] 0)"
    then show ?thesis by (rule pack_loop_bound [rotated 2]) (simp_all add: token_count_def)
  qed (rule Cons.IH)
qed

lemma pack_loop_members:
  assumes "\<forall>t \<in> set cur \<union> set g. length t = k" "0 < k" "k \<le> B" "n = token_count cur"
    "b \<in> set (pack_loop B g cur n)"
  shows "b \<noteq> [] \<and> set b \<subseteq> set cur \<union> set g"
  using assms
proof (induction g arbitrary: cur n)
  case Nil
  then show ?case by (auto split: if_splits)
next
  case (Cons x g)
  have x: "length x = k" using Cons.prems(1) by simp
  show ?case
  proof (cases "n + length x > B")
    case True
    with Cons.prems(5) have "b = cur \<or> b \<in> set (pack_loop B g [x] (length x))" by simp
    then show ?thesis
    proof
      assume b: "b = cur"
      have "cur \<noteq> []"
      proof
        assume "cur = []"
        with Cons.prems(4) True x Cons.prems(3) show False by (simp add: token_count_def)
      qed
      with b show ?thesis by auto
    next
      assume "b \<in> set (pack_loop B g [x] (length x))"
      with Cons.prems(1-3) have "b \<noteq> [] \<and> set b \<subseteq> set [x] \<union> set g"
        by (intro Cons.IH) (simp_all add: token_count_def)
      then show ?thesis by auto
    qed
  next
    case False
    with Cons.prems(5) have "b \<in> set (pack_loop B g (cur @ [x]) (n + length x))" by simp
    with Cons.prems(1-4) have "b \<noteq> [] \<and> set b \<subseteq> set (cur @ [x]) \<union> set g"
      by (intro Cons.IH) (simp_all add: token_count_def)
    then show ?thesis by auto
  qed
qed

lemma pack_groups_parts:
  "\<exists>parts. pack_groups d B = concat parts \<and> map concat parts = map snd d \<and>
     list_all2 (\<lambda>p g. p = pack_loop B (snd g) [] 0) parts d"
proof (induction d)
  case Nil
  then show ?case by simp
next
  case (Cons g d)
  obtain k v where g: "g = (k, v)" by (cases g)
  from Cons obtain parts where "pack_groups d B = concat parts" "map concat parts = map snd d"
     "list_all2 (\<lambda>p g. p = pack_loop B (snd g) [] 0) parts d" by blast
  with g have "pack_groups (g # d) B = concat (pack_loop B v [] 0 # parts) \<and>
     map concat (pack_loop B v [] 0 # parts) = map snd (g # d) \<and>
     list_all2 (\<lambda>p g. p = pack_loop B (snd g) [] 0) (pack_loop B v [] 0 # parts) (g # d)"
    by (simp add: concat_pack_loop)
  then show ?case by blast
qed

lemma py_max_ge: "py_max ks = Inr B \<Longrightarrow> k \<in> set ks \<Longrightarrow> k \<le> B"
proof -
  have f: "a \<le> fold max xs a \<and> (\<forall>x \<in> set xs. x \<le> fold max xs a)" for xs and a :: nat
  proof (induction xs arbitrary: a)
    case Nil
    then show ?case by simp
  next
    case (Cons x xs)
    from Cons [of "max x a"] show ?case by auto
  qed
  assume "py_max ks = Inr B" "k \<in> set ks"
  then show ?thesis using f by (cases ks) auto
qed

lemma py_max_mem: "py_max ks = Inr B \<Longrightarrow> B \<in> set ks"
proof -
  have f: "fold max xs a \<in> insert a (set xs)" for xs and a :: nat
  proof (induction xs arbitrary: a)
    case Nil
    then show ?case by simp
  next
    case (Cons x xs)
    from Cons [of "max x a"] show ?case by (auto simp: max_def split: if_splits)
  qed
  assume "py_max ks = Inr B"
  then show ?thesis using f by (cases ks) auto
qed

section \<open>The shape of the yielded batches\<close>

lemma min_seq_length_const:
  assumes "b \<noteq> []" "\<forall>t \<in> set b. length t = k"
  shows "min_seq_length b = k"
proof -
  from assms have "set (map length b) = {k}" by (cases b) auto
  then show ?thesis by (simp add: min_seq_length_def)
qed

lemma same_length_const: "\<forall>t \<in> set b. length t = k \<Longrightarrow> same_length b"
  by (simp add: same_length_def list_all_iff)

lemma sorted_by_group:
  "list_all2 (\<lambda>p g. \<forall>b \<in> set p. f b = fst g) parts d \<Longrightarrow> sorted_wrt (<) (map fst d) \<Longrightarrow>
     sorted (map f (concat parts)) \<and> (\<forall>b \<in> set (concat parts). f b \<in> set (map fst d))"
proof (induction rule: list_all2_induct)
  case Nil
  then show ?case by simp
next
  case (Cons p parts g d)
  from Cons.prems have lt: "\<forall>k \<in> set (map fst d). fst g < k" and srt: "sorted_wrt (<) (map fst d)"
    by simp_all
  from Cons.IH [OF srt] have ih: "sorted (map f (concat parts))"
    "\<forall>b \<in> set (concat parts). f b \<in> set (map fst d)" by simp_all
  have hd: "\<forall>b \<in> set p. f b = fst g" using Cons.hyps(1) .
  then have "map f p = replicate (length p) (fst g)"
    by (simp add: map_replicate_const [symmetric] cong: map_cong)
  then have 1: "sorted (map f p)" by (simp add: sorted_replicate)
  have 2: "\<forall>x \<in> set (map f p). \<forall>y \<in> set (map f (concat parts)). x \<le> y"
  proof (intro ballI)
    fix x y assume "x \<in> set (map f p)" "y \<in> set (map f (concat parts))"
    with hd ih(2) have "x = fst g" "y \<in> set (map fst d)" by auto
    with lt show "x \<le> y" by (auto simp: less_imp_le)
  qed
  have "sorted (map f (concat (p # parts)))"
    using 1 2 ih(1) by (simp add: sorted_append)
  moreover have "\<forall>b \<in> set (concat (p # parts)). f b \<in> set (map fst (g # d))"
    using hd ih(2) by auto
  ultimately show ?case by blast
qed

lemma chunker_subset:
  assumes "0 < m" "chunker xs (int m) = Inr chunks" "c \<in> set chunks"
  shows "set c \<subseteq> set xs"
proof -
  from assms obtain i where "c = take m (drop (i * m) xs)"
    by (auto simp: chunker_pos)
  then show ?thesis
    using set_take_subset [of m "drop (i * m) xs"] set_drop_subset [of "i * m" xs] by simp
qed

lemma chunk_groups_batches:
  assumes "0 < m" "groups_ok d"
  shows "\<exists>parts. chunk_groups d (int m) = (concat parts, None) \<and> map concat parts = map snd d \<and>
           list_all2 (\<lambda>p g. \<forall>b \<in> set p. b \<noteq> [] \<and> length b \<le> m \<and> (\<forall>t \<in> set b. length t = fst g)) parts d"
proof -
  from chunk_groups_pos [OF assms(1), of d] obtain parts
    where parts: "chunk_groups d (int m) = (concat parts, None)" "map concat parts = map snd d"
      "list_all2 (\<lambda>p g. chunker (snd g) (int m) = Inr p) parts d" by blast
  have "list_all2 (\<lambda>p g. \<forall>b \<in> set p. b \<noteq> [] \<and> length b \<le> m \<and> (\<forall>t \<in> set b. length t = fst g)) parts d"
    using parts(3)
  proof (rule list.rel_mono_strong)
    fix p g assume g: "g \<in> set d" and ch: "chunker (snd g) (int m) = Inr p"
    show "\<forall>b \<in> set p. b \<noteq> [] \<and> length b \<le> m \<and> (\<forall>t \<in> set b. length t = fst g)"
    proof
      fix b assume b: "b \<in> set p"
      from groups_okD [OF assms(2), of "fst g" "snd g"] g
      have "\<forall>t \<in> set (snd g). length t = fst g" by simp
      with chunker_subset [OF assms(1) ch b] chunker_lengths [OF assms(1) ch b]
      show "b \<noteq> [] \<and> length b \<le> m \<and> (\<forall>t \<in> set b. length t = fst g)" by blast
    qed
  qed
  with parts show ?thesis by blast
qed

lemma pack_groups_batches:
  assumes "groups_ok d" "\<forall>k \<in> set (map fst d). k \<le> B"
  shows "\<exists>parts. pack_groups d B = concat parts \<and> map concat parts = map snd d \<and>
           list_all2 (\<lambda>p g. \<forall>b \<in> set p. b \<noteq> [] \<and> (\<forall>t \<in> set b. length t = fst g)) parts d"
proof -
  from pack_groups_parts [of d B] obtain parts
    where parts: "pack_groups d B = concat parts" "map concat parts = map snd d"
      "list_all2 (\<lambda>p g. p = pack_loop B (snd g) [] 0) parts d" by blast
  have "list_all2 (\<lambda>p g. \<forall>b \<in> set p. b \<noteq> [] \<and> (\<forall>t \<in> set b. length t = fst g)) parts d"
    using parts(3)
  proof (rule list.rel_mono_strong)
    fix p g assume g: "g \<in> set d" and p: "p = pack_loop B (snd g) [] 0"
    show "\<forall>b \<in> set p. b \<noteq> [] \<and> (\<forall>t \<in> set b. length t = fst g)"
    proof
      fix b assume b: "b \<in> set p"
      from groups_okD [OF assms(1), of "fst g" "snd g"] g
      have ok: "0 < fst g" "\<forall>t \<in> set (snd g). length t = fst g" by simp_all
      from assms(2) g have le: "fst g \<le> B" by simp
      have "b \<noteq> [] \<and> set b \<subseteq> set [] \<union> set (snd g)"
        using ok le b p by (intro pack_loop_members [where k = "fst g" and B = B and n = 0])
          (simp_all add: token_count_def)
      with ok(2) show "b \<noteq> [] \<and> (\<forall>t \<in> set b. length t = fst g)" by auto
    qed
  qed
  with parts show ?thesis by blast
qed

text \<open>The budget variant, spelled out from the groups.\<close>

lemma budget_cases:
  assumes "length_groups toks = Inr d"
  shows "(d = [] \<and> predict_sorted_batches_budget toks = ([], Some ValueError) \<and> token_budget toks = Inl ValueError) \<or>
         (\<exists>B. py_max (map fst d) = Inr B \<and> token_budget toks = Inr B \<and>
               predict_sorted_batches_budget toks = (pack_groups d B, None))"
proof (cases d)
  case Nil
  with assms show ?thesis by (simp add: predict_sorted_batches_budget_def token_budget_def)
next
  case (Cons g d')
  with assms show ?thesis by (simp add: predict_sorted_batches_budget_def token_budget_def)
qed

lemma budget_batches:
  "\<exists>d parts. length_groups toks = Inr d \<and> sorted_wrt (<) (map fst d) \<and>
     mset (concat (map snd d)) = mset (filter (\<lambda>t. t \<noteq> []) toks) \<and>
     fst (predict_sorted_batches_budget toks) = concat parts \<and> map concat parts = map snd d \<and>
     list_all2 (\<lambda>p g. \<forall>b \<in> set p. b \<noteq> [] \<and> (\<forall>t \<in> set b. length t = fst g)) parts d"
proof -
  from length_groups_props [of toks] obtain d where d: "length_groups toks = Inr d" "groups_ok d"
    "sorted_wrt (<) (map fst d)" "mset (concat (map snd d)) = mset (filter (\<lambda>t. t \<noteq> []) toks)"
    by blast
  from budget_cases [OF d(1)] show ?thesis
  proof (elim disjE conjE exE)
    assume "d = []" "predict_sorted_batches_budget toks = ([], Some ValueError)"
    with d have "length_groups toks = Inr d \<and> sorted_wrt (<) (map fst d) \<and>
     mset (concat (map snd d)) = mset (filter (\<lambda>t. t \<noteq> []) toks) \<and>
     fst (predict_sorted_batches_budget toks) = concat [] \<and> map concat [] = map snd d \<and>
     list_all2 (\<lambda>p g. \<forall>b \<in> set p. b \<noteq> [] \<and> (\<forall>t \<in> set b. length t = fst g)) [] d"
      by simp
    then show ?thesis by blast
  next
    fix B assume B: "py_max (map fst d) = Inr B" "predict_sorted_batches_budget toks = (pack_groups d B, None)"
    have "\<forall>k \<in> set (map fst d). k \<le> B" using py_max_ge [OF B(1)] by blast
    from pack_groups_batches [OF d(2) this] obtain parts
      where parts: "pack_groups d B = concat parts" "map concat parts = map snd d"
        "list_all2 (\<lambda>p g. \<forall>b \<in> set p. b \<noteq> [] \<and> (\<forall>t \<in> set b. length t = fst g)) parts d"
      by blast
    have "fst (predict_sorted_batches_budget toks) = concat parts"
      using B(2) parts(1) by simp
    with d(1,3,4) parts(2,3) show ?thesis by blast
  qed
qed

lemma fixed_batches:
  assumes "0 < m"
  shows "\<exists>d parts. length_groups toks = Inr d \<and> sorted_wrt (<) (map fst d) \<and>
     mset (concat (map snd d)) = mset (filter (\<lambda>t. t \<noteq> []) toks) \<and>
     predict_sorted_batches toks (int m) = (concat parts, None) \<and> map concat parts = map snd d \<and>
     list_all2 (\<lambda>p g. \<forall>b \<in> set p. b \<noteq> [] \<and> length b \<le> m \<and> (\<forall>t \<in> set b. length t = fst g)) parts d"
proof -
  from length_groups_props [of toks] obtain d where d: "length_groups toks = Inr d" "groups_ok d"
    "sorted_wrt (<) (map fst d)" "mset (concat (map snd d)) = mset (filter (\<lambda>t. t \<noteq> []) toks)"
    by blast
  from chunk_groups_batches [OF assms d(2)] obtain parts
    where parts: "chunk_groups d (int m) = (concat parts, None)" "map concat parts = map snd d"
      "list_all2 (\<lambda>p g. \<forall>b \<in> set p. b \<noteq> [] \<and> length b \<le> m \<and> (\<forall>t \<in> set b. length t = fst g)) parts d"
    by blast
  have "predict_sorted_batches toks (int m) = (concat parts, None)"
    using d(1) parts(1) by (simp add: predict_sorted_batches_def)
  with d(1,3,4) parts(2,3) show ?thesis by blast
qed

lemma fixed_nonpositive:
  assumes "m \<le> 0"
  shows "fst (predict_sorted_batches toks m) = []"
proof -
  from length_groups_props [of toks] obtain d where "length_groups toks = Inr d" by blast
  with assms show ?thesis
    by (cases "m = 0") (simp_all add: predict_sorted_batches_def chunk_groups_zero chunk_groups_neg)
qed

lemma concat_concat_map: "concat (concat xss) = concat (map concat xss)"
  by (induction xss) simp_all

lemma mset_concat_parts:
  assumes "map concat parts = map snd d"
  shows "mset (concat (concat parts)) = mset (concat (map snd d))"
  unfolding concat_concat_map assms ..

lemma parts_member:
  "list_all2 (\<lambda>p g. \<forall>b \<in> set p. P b (fst g)) parts d \<Longrightarrow> b \<in> set (concat parts) \<Longrightarrow>
     \<exists>k \<in> set (map fst d). P b k"
  by (induction rule: list_all2_induct) auto

lemma no_empty_sequence:
  assumes "mset (concat bs) = mset (filter (\<lambda>s. s \<noteq> []) toks)" "b \<in> set bs"
  shows "[] \<notin> set b"
proof
  assume "[] \<in> set b"
  with assms(2) have "[] \<in> set (concat bs)" by auto
  also have "set (concat bs) = set (filter (\<lambda>s. s \<noteq> []) toks)"
    using assms(1) by (rule mset_eq_setD)
  finally show False by simp
qed

lemma int_ge_one: "1 \<le> (i::int) \<Longrightarrow> \<exists>m. i = int m \<and> 0 < m"
  by (rule exI [of _ "nat i"]) simp

lemma sorted_min_lengths:
  assumes "list_all2 (\<lambda>p g. \<forall>b \<in> set p. b \<noteq> [] \<and> (\<forall>t \<in> set b. length t = fst g)) parts d"
    "sorted_wrt (<) (map fst d)"
  shows "sorted (map min_seq_length (concat parts))"
proof -
  from assms(1) have "list_all2 (\<lambda>p g. \<forall>b \<in> set p. min_seq_length b = fst g) parts d"
    by (rule list_all2_mono) (simp add: min_seq_length_const)
  from sorted_by_group [OF this assms(2)] show ?thesis by simp
qed

section \<open>The claims\<close>

text \<open>
  C10: for every list \<open>seq\<close> and every \<open>max_size \<ge> 1\<close>, \<^const>\<open>chunker\<close> returns chunks
  (it does not raise) whose concatenation, in order, is exactly \<open>seq\<close>, and every chunk
  except possibly the last holds exactly \<open>max_size\<close> items.
\<close>

theorem chunker_partition:
  assumes "1 \<le> max_size"
  shows "\<exists>chunks. chunker seq max_size = Inr chunks \<and> concat chunks = seq \<and>
           (\<forall>i. Suc i < length chunks \<longrightarrow> int (length (chunks ! i)) = max_size)"
proof -
  from int_ge_one [OF assms] obtain m where m: "max_size = int m" "0 < m" by blast
  let ?chunks = "map (\<lambda>i. take m (drop (i * m) seq)) [0 ..< chunk_count (length seq) m]"
  have eq: "chunker seq max_size = Inr ?chunks"
    using m by (simp add: chunker_pos)
  have cat: "concat ?chunks = seq"
    using chunker_concat [OF m(2)] eq m(1) by simp
  have full: "int (length (?chunks ! i)) = max_size" if "Suc i < length ?chunks" for i
  proof -
    from that have i: "Suc i < chunk_count (length seq) m" by simp
    then have "i * m + m \<le> length seq" by (rule chunk_count_full [OF m(2)])
    moreover from i have "?chunks ! i = take m (drop (i * m) seq)" by simp
    ultimately show ?thesis using m(1) by simp
  qed
  from eq cat full show ?thesis by blast
qed

theorem chunker_partition_witness:
  "chunker [1, 2, 3, 4, 5 :: int] 2 = Inr [[1, 2], [3, 4], [5]]"
proof -
  have h: "(1::int) \<le> 2" by simp
  from chunker_partition [OF h, of "[1, 2, 3, 4, 5 :: int]"]
  obtain chunks where "chunker [1, 2, 3, 4, 5 :: int] 2 = Inr chunks" by blast
  moreover have "chunker [1, 2, 3, 4, 5 :: int] 2 = Inr [[1, 2], [3, 4], [5]]"
    by (simp add: chunker_def py_range_def py_slice_def slice_index_def upt_rec)
  ultimately show ?thesis by simp
qed

text \<open>
  C1: for every list of tokenized sequences, the sequences found across all batches
  yielded by \<^verbatim>\<open>predict_sorted_batches\<close> are, as a multiset, exactly the non-empty
  input sequences (each once, none lost, none duplicated), and no zero-length sequence
  is in any batch. This holds for the token-budget script as it is, and for the
  fixed-count script run to its end with a batch size of at least one (the sizes it is
  meant for; what a non-positive size does is the subject of C3).
\<close>

theorem batches_cover_inputs:
  assumes "1 \<le> max_batch_size"
  shows "mset (concat (fst (predict_sorted_batches toks max_batch_size))) = mset (filter (\<lambda>s. s \<noteq> []) toks) \<and>
         snd (predict_sorted_batches toks max_batch_size) = None \<and>
         (\<forall>b \<in> set (fst (predict_sorted_batches toks max_batch_size)). [] \<notin> set b) \<and>
         mset (concat (fst (predict_sorted_batches_budget toks))) = mset (filter (\<lambda>s. s \<noteq> []) toks) \<and>
         (\<forall>b \<in> set (fst (predict_sorted_batches_budget toks)). [] \<notin> set b)"
proof -
  from int_ge_one [OF assms] obtain m where m: "max_batch_size = int m" "0 < m" by blast
  from fixed_batches [OF m(2), of toks] obtain d parts
    where f: "mset (concat (map snd d)) = mset (filter (\<lambda>t. t \<noteq> []) toks)"
      "predict_sorted_batches toks (int m) = (concat parts, None)" "map concat parts = map snd d"
      and "length_groups toks = Inr d"
    by blast
  have 1: "mset (concat (fst (predict_sorted_batches toks max_batch_size))) = mset (filter (\<lambda>s. s \<noteq> []) toks)"
    using f mset_concat_parts [OF f(3)] m(1) by simp
  have 2: "snd (predict_sorted_batches toks max_batch_size) = None"
    using f(2) m(1) by simp
  from budget_batches [of toks] obtain d' parts'
    where g: "mset (concat (map snd d')) = mset (filter (\<lambda>t. t \<noteq> []) toks)"
      "fst (predict_sorted_batches_budget toks) = concat parts'" "map concat parts' = map snd d'"
      and "length_groups toks = Inr d'"
    by blast
  have 3: "mset (concat (fst (predict_sorted_batches_budget toks))) = mset (filter (\<lambda>s. s \<noteq> []) toks)"
    using g mset_concat_parts [OF g(3)] by simp
  from 1 2 3 no_empty_sequence [OF 1] no_empty_sequence [OF 3] show ?thesis by blast
qed

theorem batches_cover_inputs_witness:
  "(1::int) \<le> 1 \<and>
   mset (concat (fst (predict_sorted_batches [[1, 2], [], [3]] 1))) = mset [[1, 2], [3]] \<and>
   mset (concat (fst (predict_sorted_batches_budget [[1, 2], [], [3]]))) = mset [[1, 2], [3]]"
  using batches_cover_inputs [of 1 "[[1, 2], [], [3]]"] by simp

text \<open>
  C2: under the token-budget policy every produced batch has a token count (the sum of
  the lengths of its sequences) of at most the budget, or holds exactly one sequence.
  The budget of the script is \<^verbatim>\<open>max_size\<close>, the largest sequence length present.
\<close>

theorem token_budget_respected:
  assumes "token_budget toks = Inr budget"
  shows "\<forall>b \<in> set (fst (predict_sorted_batches_budget toks)). token_count b \<le> budget \<or> length b = 1"
proof -
  from length_groups_props [of toks] obtain d where d: "length_groups toks = Inr d" by blast
  from budget_cases [OF d] assms
  have "predict_sorted_batches_budget toks = (pack_groups d budget, None)" by auto
  then show ?thesis using pack_groups_bound [of _ d budget] by simp
qed

theorem token_budget_respected_witness:
  "token_budget [[9, 9, 9, 9], [1], [2], [], [3], [4], [5], [6, 6]] = Inr 4 \<and>
   list_all (\<lambda>b. token_count b \<le> 4 \<or> length b = 1)
     (fst (predict_sorted_batches_budget [[9, 9, 9, 9], [1], [2], [], [3], [4], [5], [6, 6]]))"
proof -
  have h: "token_budget [[9, 9, 9, 9], [1], [2], [], [3], [4], [5], [6, 6]] = Inr 4"
    by code_simp
  from token_budget_respected [OF h] h show ?thesis by (simp add: list_all_iff)
qed

text \<open>
  C3, as the code has it: with \<^verbatim>\<open>max_batch_size = 0\<close> and at least one non-empty
  sequence, the fixed-count script fails with the \<^verbatim>\<open>ValueError\<close> of \<^verbatim>\<open>range\<close>
  before any batch is yielded. The token-budget script takes no budget argument: its
  budget is the largest sequence length present, so whenever there is a budget it is
  positive.
\<close>

theorem zero_max_items_fails:
  "((\<exists>s \<in> set toks. s \<noteq> []) \<longrightarrow> predict_sorted_batches toks 0 = ([], Some ValueError)) \<and>
   (token_budget toks = Inr budget \<longrightarrow> 0 < budget)"
proof -
  from length_groups_props [of toks] obtain d where d: "length_groups toks = Inr d" "groups_ok d"
    "mset (concat (map snd d)) = mset (filter (\<lambda>t. t \<noteq> []) toks)" by blast
  have 1: "predict_sorted_batches toks 0 = ([], Some ValueError)" if "\<exists>s \<in> set toks. s \<noteq> []"
  proof -
    from that have "filter (\<lambda>t. t \<noteq> []) toks \<noteq> []" by (simp add: filter_empty_conv)
    with d(3) have "d \<noteq> []" by auto
    with d(1) show ?thesis by (simp add: predict_sorted_batches_def chunk_groups_zero)
  qed
  have 2: "0 < budget" if "token_budget toks = Inr budget"
  proof -
    from that d(1) have "py_max (map fst d) = Inr budget" by (simp add: token_budget_def)
    then have "budget \<in> set (map fst d)" by (rule py_max_mem)
    then obtain v where "(budget, v) \<in> set d" by auto
    with groups_okD [OF d(2)] show ?thesis by blast
  qed
  from 1 2 show ?thesis by blast
qed

theorem zero_max_items_fails_witness:
  "predict_sorted_batches [[1]] 0 = ([], Some ValueError) \<and> token_budget [[1]] = Inr 1 \<and> (0::nat) < 1"
proof -
  have h: "token_budget [[1]] = Inr 1" by code_simp
  from zero_max_items_fails [of "[[1]]" 1] h show ?thesis by simp
qed

text \<open>
  C3 as stated fails: a negative \<^verbatim>\<open>max_batch_size\<close> makes every \<^verbatim>\<open>range\<close> empty, so
  the generator ends normally without a batch and without an error.
\<close>

theorem negative_max_items_counterexample:
  "predict_sorted_batches [[1]] (- 1) = ([], None)"
  by code_simp

text \<open>
  C4: an input with no non-empty sequence is to give no batch and no failure. On the
  input \<^verbatim>\<open>[[]]\<close> the fixed-count script does so; the token-budget script raises
  \<^verbatim>\<open>ValueError\<close>, from \<^verbatim>\<open>max\<close> of the empty dict's keys.
\<close>

theorem empty_input_budget_raises:
  "predict_sorted_batches [[]] 32 = ([], None) \<and>
   predict_sorted_batches_budget [[]] = ([], Some ValueError)"
  by code_simp

text \<open>
  C5: under the fixed-count policy with \<^verbatim>\<open>max_items \<ge> 1\<close> the batches are, group by
  group and in order, consecutive chunks whose concatenation is the group, every
  batch holding at most \<^verbatim>\<open>max_items\<close> sequences; five sequences of length 1 with
  \<^verbatim>\<open>max_items = 2\<close> give batches of sizes 2, 2, 1.
\<close>

theorem fixed_count_chunks:
  "(1 \<le> max_items \<longrightarrow>
      (\<exists>d parts. length_groups toks = Inr d \<and>
         predict_sorted_batches toks max_items = (concat parts, None) \<and>
         map concat parts = map snd d \<and>
         (\<forall>b \<in> set (concat parts). int (length b) \<le> max_items))) \<and>
   map length (fst (predict_sorted_batches [[1], [2], [3], [4], [5]] 2)) = [2, 2, 1]"
proof
  show "1 \<le> max_items \<longrightarrow>
      (\<exists>d parts. length_groups toks = Inr d \<and>
         predict_sorted_batches toks max_items = (concat parts, None) \<and>
         map concat parts = map snd d \<and>
         (\<forall>b \<in> set (concat parts). int (length b) \<le> max_items))"
  proof
    assume "1 \<le> max_items"
    from int_ge_one [OF this] obtain m where m: "max_items = int m" "0 < m" by blast
    from fixed_batches [OF m(2), of toks] obtain d parts
      where f: "length_groups toks = Inr d"
        "predict_sorted_batches toks (int m) = (concat parts, None)" "map concat parts = map snd d"
        "list_all2 (\<lambda>p g. \<forall>b \<in> set p. b \<noteq> [] \<and> length b \<le> m \<and> (\<forall>t \<in> set b. length t = fst g)) parts d"
      by auto
    have "int (length b) \<le> max_items" if "b \<in> set (concat parts)" for b
    proof -
      from f(4) have "list_all2 (\<lambda>p g. \<forall>b \<in> set p. length b \<le> m) parts d"
        by (rule list_all2_mono) simp
      from parts_member [where P = "\<lambda>b k. length b \<le> m", OF this that] m(1) show ?thesis by auto
    qed
    with f(1-3) m(1) show "\<exists>d parts. length_groups toks = Inr d \<and>
         predict_sorted_batches toks max_items = (concat parts, None) \<and>
         map concat parts = map snd d \<and>
         (\<forall>b \<in> set (concat parts). int (length b) \<le> max_items)" by blast
  qed
  show "map length (fst (predict_sorted_batches [[1], [2], [3], [4], [5]] 2)) = [2, 2, 1]"
    by code_simp
qed

theorem fixed_count_chunks_witness:
  "(1::int) \<le> 2 \<and>
   list_all (\<lambda>b. int (length b) \<le> 2) (fst (predict_sorted_batches [[1], [2], [3], [4], [5]] 2)) \<and>
   predict_sorted_batches [[1], [2], [3], [4], [5]] 2 = ([[[1], [2]], [[3], [4]], [[5]]], None)"
proof -
  have h: "(1::int) \<le> 2" by simp
  from fixed_count_chunks [of 2 "[[1], [2], [3], [4], [5]]"] h obtain d parts
    where "predict_sorted_batches [[1], [2], [3], [4], [5]] 2 = (concat parts, None)"
      "\<forall>b \<in> set (concat parts). int (length b) \<le> 2" by blast
  then have "list_all (\<lambda>b. int (length b) \<le> 2) (fst (predict_sorted_batches [[1], [2], [3], [4], [5]] 2))"
    by (simp add: list_all_iff)
  moreover have "predict_sorted_batches [[1], [2], [3], [4], [5]] 2 = ([[[1], [2]], [[3], [4]], [[5]]], None)"
    by code_simp
  ultimately show ?thesis by simp
qed

text \<open>
  C6: for every input the length groups come in strictly ascending order of length,
  no length twice, and in both scripts the batches are yielded in non-decreasing order
  of the smallest sequence length they hold.
\<close>

theorem ascending_groups_and_batches:
  "\<exists>d. length_groups toks = Inr d \<and> sorted_wrt (<) (map fst d) \<and> distinct (map fst d) \<and>
     sorted (map min_seq_length (fst (predict_sorted_batches toks max_batch_size))) \<and>
     sorted (map min_seq_length (fst (predict_sorted_batches_budget toks)))"
proof -
  from budget_batches [of toks] obtain d parts
    where b: "length_groups toks = Inr d" "sorted_wrt (<) (map fst d)"
      "fst (predict_sorted_batches_budget toks) = concat parts"
      "list_all2 (\<lambda>p g. \<forall>b \<in> set p. b \<noteq> [] \<and> (\<forall>t \<in> set b. length t = fst g)) parts d"
    by auto
  have 1: "sorted (map min_seq_length (fst (predict_sorted_batches_budget toks)))"
    using sorted_min_lengths [OF b(4) b(2)] b(3) by simp
  have 2: "sorted (map min_seq_length (fst (predict_sorted_batches toks max_batch_size)))"
  proof (cases "1 \<le> max_batch_size")
    case True
    from int_ge_one [OF this] obtain m where m: "max_batch_size = int m" "0 < m" by blast
    from fixed_batches [OF m(2), of toks] b(1) obtain parts'
      where f: "predict_sorted_batches toks (int m) = (concat parts', None)"
        "list_all2 (\<lambda>p g. \<forall>b \<in> set p. b \<noteq> [] \<and> length b \<le> m \<and> (\<forall>t \<in> set b. length t = fst g)) parts' d"
      by auto
    from f(2) have "list_all2 (\<lambda>p g. \<forall>b \<in> set p. b \<noteq> [] \<and> (\<forall>t \<in> set b. length t = fst g)) parts' d"
      by (rule list_all2_mono) simp
    from sorted_min_lengths [OF this b(2)] f(1) m(1) show ?thesis by simp
  next
    case False
    then have "fst (predict_sorted_batches toks max_batch_size) = []"
      by (intro fixed_nonpositive) simp
    then show ?thesis by simp
  qed
  from b(2) have "distinct (map fst d)" by (simp add: strict_sorted_iff)
  with b(1,2) 1 2 show ?thesis by blast
qed

text \<open>
  C7: under the token-budget policy the yielded batches split into consecutive runs,
  one per length group, and the run of a group holds exactly the sequences of that
  group: what is left of a group is flushed at its end and never carried into the
  next. So every batch holds sequences of one single length.
\<close>

theorem groups_flushed_separately:
  "\<exists>d parts. length_groups toks = Inr d \<and>
     fst (predict_sorted_batches_budget toks) = concat parts \<and>
     map concat parts = map snd d \<and>
     (\<forall>b \<in> set (fst (predict_sorted_batches_budget toks)). same_length b)"
proof -
  from budget_batches [of toks] obtain d parts
    where b: "length_groups toks = Inr d"
      "fst (predict_sorted_batches_budget toks) = concat parts" "map concat parts = map snd d"
      "list_all2 (\<lambda>p g. \<forall>b \<in> set p. b \<noteq> [] \<and> (\<forall>t \<in> set b. length t = fst g)) parts d"
    by auto
  have "same_length x" if "x \<in> set (concat parts)" for x
  proof -
    from b(4) have "list_all2 (\<lambda>p g. \<forall>b \<in> set p. \<forall>t \<in> set b. length t = fst g) parts d"
      by (rule list_all2_mono) simp
    from parts_member [where P = "\<lambda>b k. \<forall>t \<in> set b. length t = k", OF this that]
    show ?thesis by (auto intro: same_length_const)
  qed
  with b(1-3) show ?thesis by auto
qed

theorem groups_flushed_separately_witness:
  "list_all same_length (fst (predict_sorted_batches_budget [[9, 9, 9, 9], [1], [2], [], [3], [4], [5], [6, 6]])) \<and>
   predict_sorted_batches_budget [[9, 9, 9, 9], [1], [2], [], [3], [4], [5], [6, 6]] =
     ([[[1], [2], [3], [4]], [[5]], [[6, 6]], [[9, 9, 9, 9]]], None)"
proof -
  from groups_flushed_separately [of "[[9, 9, 9, 9], [1], [2], [], [3], [4], [5], [6, 6]]"]
  have "list_all same_length (fst (predict_sorted_batches_budget [[9, 9, 9, 9], [1], [2], [], [3], [4], [5], [6, 6]]))"
    unfolding list_all_iff by blast
  moreover have "predict_sorted_batches_budget [[9, 9, 9, 9], [1], [2], [], [3], [4], [5], [6, 6]] =
     ([[[1], [2], [3], [4]], [[5]], [[6, 6]], [[9, 9, 9, 9]]], None)"
    by code_simp
  ultimately show ?thesis by (rule conjI)
qed

text \<open>
  C8, as the code has it: when the wrapped work completes or leaves early without an
  exception, \<^verbatim>\<open>track_time\<close> prints the elapsed time (second reading minus first)
  after whatever the work printed; when the wrapped work raises, the exception goes
  through unchanged and nothing is printed.
\<close>

theorem track_time_reports_unless_raised:
  "(fst (body w) = Completed \<or> fst (body w) = Early_exit \<longrightarrow>
      fst (track_time body w) = fst (body w) \<and>
      stdout (snd (track_time body w)) =
        stdout (snd (body w)) @ [Execution_time (now (snd (body w)) - now w)]) \<and>
   (fst (body w) = Raised e \<longrightarrow> track_time body w = body w)"
  by (cases "body w"; cases "fst (body w)") (auto simp: track_time_def)

theorem track_time_reports_unless_raised_witness:
  "stdout (snd (track_time finishing_work \<lparr>now = 0, stdout = []\<rparr>)) = [Execution_time 5] \<and>
   track_time raising_work \<lparr>now = 0, stdout = []\<rparr> = raising_work \<lparr>now = 0, stdout = []\<rparr>"
  using track_time_reports_unless_raised [of finishing_work "\<lparr>now = 0, stdout = []\<rparr>" "''inference failed''"]
    track_time_reports_unless_raised [of raising_work "\<lparr>now = 0, stdout = []\<rparr>" "''inference failed''"]
  by (simp add: finishing_work_def raising_work_def)

text \<open>
  C8 as stated fails: wrapped work that raises leaves nothing printed.
\<close>

theorem track_time_silent_on_exception_counterexample:
  "stdout (snd (track_time raising_work \<lparr>now = 0, stdout = []\<rparr>)) = []"
  by (simp add: track_time_def raising_work_def)

end
